theory Spec2Isabelle
  imports Main "HOL-Library.Word" "HOL-Library.Multiset"
begin

section \<open>The reader-writer lock of my\_rwlock.c\<close>

text \<open>
  The struct \<open>my_rwlock_t\<close> of my\_rwlock.h. Its mutex and its two condition variables
  carry no data of their own: the mutex is what makes each critical section below one
  atomic step, and the condition variables appear as the calls made on them. The four
  counters are C \<open>int\<close>s; \<open>writer_active\<close> is used as a flag (zero is false).
\<close>

record my_rwlock_t =
  active_readers :: int
  waiting_readers :: int
  waiting_writers :: int
  writer_active :: int

text \<open>\<open>my_rwlock_init\<close>: \<open>-1\<close> on a null pointer, otherwise all four fields are zeroed.\<close>

definition my_rwlock_init :: "my_rwlock_t option \<Rightarrow> int \<times> my_rwlock_t option" where
  "my_rwlock_init rwlock =
     (case rwlock of
        None \<Rightarrow> (- 1, None)
      | Some l \<Rightarrow> (0, Some (l\<lparr>active_readers := 0, waiting_readers := 0,
                               waiting_writers := 0, writer_active := 0\<rparr>)))"

text \<open>
  \<open>my_rwlock_rdlock\<close>, cut at its \<open>pthread_cond_wait\<close>: the registration
  \<open>waiting_readers++\<close>, the loop condition, and the admission after the loop.
\<close>

definition rdlock_register :: "my_rwlock_t \<Rightarrow> my_rwlock_t" where
  "rdlock_register l = l\<lparr>waiting_readers := waiting_readers l + 1\<rparr>"

definition rdlock_must_wait :: "my_rwlock_t \<Rightarrow> bool" where
  "rdlock_must_wait l \<longleftrightarrow> writer_active l \<noteq> 0 \<or> waiting_writers l > 0"

definition rdlock_admit :: "my_rwlock_t \<Rightarrow> my_rwlock_t" where
  "rdlock_admit l =
     (let l1 = l\<lparr>waiting_readers := waiting_readers l - 1\<rparr>
      in l1\<lparr>active_readers := active_readers l1 + 1\<rparr>)"

text \<open>\<open>my_rwlock_wrlock\<close>, cut the same way.\<close>

definition wrlock_register :: "my_rwlock_t \<Rightarrow> my_rwlock_t" where
  "wrlock_register l = l\<lparr>waiting_writers := waiting_writers l + 1\<rparr>"

definition wrlock_must_wait :: "my_rwlock_t \<Rightarrow> bool" where
  "wrlock_must_wait l \<longleftrightarrow> active_readers l > 0 \<or> writer_active l \<noteq> 0"

definition wrlock_admit :: "my_rwlock_t \<Rightarrow> my_rwlock_t" where
  "wrlock_admit l =
     (let l1 = l\<lparr>waiting_writers := waiting_writers l - 1\<rparr>
      in l1\<lparr>writer_active := 1\<rparr>)"

text \<open>
  \<open>my_rwlock_unlock\<close>. The critical section returns the new fields and the calls it
  made on the condition variables, in order: \<open>pthread_cond_signal\<close> on
  \<open>write_cond\<close> or \<open>pthread_cond_broadcast\<close> on \<open>read_cond\<close>.
\<close>

datatype cond_call = Signal_write_cond | Broadcast_read_cond

definition unlock_section :: "my_rwlock_t \<Rightarrow> my_rwlock_t \<times> cond_call list" where
  "unlock_section l =
     (if writer_active l \<noteq> 0 then
        (let l1 = l\<lparr>writer_active := 0\<rparr>
         in if waiting_writers l1 > 0 then (l1, [Signal_write_cond])
            else (l1, [Broadcast_read_cond]))
      else if active_readers l > 0 then
        (let l1 = l\<lparr>active_readers := active_readers l - 1\<rparr>
         in if active_readers l1 = 0 \<and> waiting_writers l1 > 0 then (l1, [Signal_write_cond])
            else (l1, []))
      else (l, []))"

definition my_rwlock_unlock ::
  "my_rwlock_t option \<Rightarrow> int \<times> my_rwlock_t option \<times> cond_call list" where
  "my_rwlock_unlock rwlock =
     (case rwlock of
        None \<Rightarrow> (- 1, None, [])
      | Some l \<Rightarrow> (let (l1, calls) = unlock_section l in (0, Some l1, calls)))"

subsection \<open>Threads calling the lock\<close>

text \<open>
  A thread is either outside the lock's functions (\<open>Running\<close>, whether or not it
  holds the lock) or blocked in the \<open>pthread_cond_wait\<close> of \<open>my_rwlock_rdlock\<close> or
  of \<open>my_rwlock_wrlock\<close>. Every access to the fields happens with the mutex held, so
  an execution is a sequence of critical sections, one thread at a time:
  \<^item> \<open>Rdlock t\<close>, \<open>Wrlock t\<close>: thread \<open>t\<close> calls the function and runs up to its
    first wait, or to its return when it need not wait;
  \<^item> \<open>Wakeup t\<close>: thread \<open>t\<close> returns from \<open>pthread_cond_wait\<close> (signalled,
    broadcast to, or spuriously), re-checks its loop condition, and waits again or is
    admitted;
  \<^item> \<open>Unlock t\<close>: thread \<open>t\<close> runs \<open>my_rwlock_unlock\<close>.
  Wakeups are allowed at any time, which covers every schedule of the real condition
  variables; unlock is allowed for any thread that is not blocked, holder or not.
\<close>

datatype pc = Running | In_rd_wait | In_wr_wait

datatype event = Rdlock nat | Wrlock nat | Wakeup nat | Unlock nat

datatype outcome = Read_admitted | Write_admitted | Blocked | Released "cond_call list"

record sys =
  lock :: my_rwlock_t
  pcs :: "pc list"

definition init_sys :: "nat \<Rightarrow> sys" where
  "init_sys n =
     \<lparr>lock = \<lparr>active_readers = 0, waiting_readers = 0, waiting_writers = 0, writer_active = 0\<rparr>,
      pcs = replicate n Running\<rparr>"

fun thread_of :: "event \<Rightarrow> nat" where
  "thread_of (Rdlock t) = t"
| "thread_of (Wrlock t) = t"
| "thread_of (Wakeup t) = t"
| "thread_of (Unlock t) = t"

fun step :: "event \<Rightarrow> sys \<Rightarrow> (sys \<times> outcome) option" where
  "step (Rdlock t) s =
     (if t < length (pcs s) \<and> pcs s ! t = Running then
        (let l1 = rdlock_register (lock s)
         in if rdlock_must_wait l1
            then Some (\<lparr>lock = l1, pcs = (pcs s)[t := In_rd_wait]\<rparr>, Blocked)
            else Some (\<lparr>lock = rdlock_admit l1, pcs = pcs s\<rparr>, Read_admitted))
      else None)"
| "step (Wrlock t) s =
     (if t < length (pcs s) \<and> pcs s ! t = Running then
        (let l1 = wrlock_register (lock s)
         in if wrlock_must_wait l1
            then Some (\<lparr>lock = l1, pcs = (pcs s)[t := In_wr_wait]\<rparr>, Blocked)
            else Some (\<lparr>lock = wrlock_admit l1, pcs = pcs s\<rparr>, Write_admitted))
      else None)"
| "step (Wakeup t) s =
     (if t < length (pcs s) \<and> pcs s ! t = In_rd_wait then
        (if rdlock_must_wait (lock s) then Some (s, Blocked)
         else Some (\<lparr>lock = rdlock_admit (lock s), pcs = (pcs s)[t := Running]\<rparr>,
                    Read_admitted))
      else if t < length (pcs s) \<and> pcs s ! t = In_wr_wait then
        (if wrlock_must_wait (lock s) then Some (s, Blocked)
         else Some (\<lparr>lock = wrlock_admit (lock s), pcs = (pcs s)[t := Running]\<rparr>,
                    Write_admitted))
      else None)"
| "step (Unlock t) s =
     (if t < length (pcs s) \<and> pcs s ! t = Running then
        (let (l1, calls) = unlock_section (lock s)
         in Some (\<lparr>lock = l1, pcs = pcs s\<rparr>, Released calls))
      else None)"

text \<open>
  Running a schedule: the state reached and, for each event, the thread and what
  happened to it. \<open>None\<close> when the schedule asks a thread for a step it cannot take.
\<close>

fun run :: "event list \<Rightarrow> sys \<Rightarrow> (sys \<times> (nat \<times> outcome) list) option" where
  "run [] s = Some (s, [])"
| "run (e # es) s =
     (case step e s of
        None \<Rightarrow> None
      | Some (s1, out) \<Rightarrow>
          (case run es s1 of
             None \<Rightarrow> None
           | Some (s2, obs) \<Rightarrow> Some (s2, (thread_of e, out) # obs)))"

text \<open>
  The counter \<open>waiting_writers\<close> agrees with the threads: it is the number of threads
  blocked in the wait of \<open>my_rwlock_wrlock\<close>.
\<close>

definition writers_counted :: "sys \<Rightarrow> bool" where
  "writers_counted s \<longleftrightarrow> waiting_writers (lock s) = int (count (mset (pcs s)) In_wr_wait)"

section \<open>The sorted linked list of task3\_my\_rwlock.c\<close>

text \<open>
  The list hanging off the global \<open>head\<close> is the sequence of its \<open>data\<close> fields. The
  scan loop shared by \<open>Insert\<close>, \<open>Member\<close> and \<open>Delete\<close> walks \<open>curr\<close> forward
  while \<open>curr != NULL && curr->data < value\<close>; \<open>pred\<close> is the chain before
  \<open>curr\<close>, empty exactly when the pointer \<open>pred\<close> is \<open>NULL\<close>.
\<close>

fun scan :: "int \<Rightarrow> int list \<Rightarrow> int list \<Rightarrow> int list \<times> int list" where
  "scan value pred [] = (pred, [])"
| "scan value pred (d # next) =
     (if d < value then scan value (pred @ [d]) next else (pred, d # next))"

text \<open>
  \<open>Insert\<close> stores through the pointer \<open>malloc\<close> returned without testing it. The
  first argument says whether that \<open>malloc\<close> returns a node; when it returns
  \<open>NULL\<close> the store \<open>temp->data = value\<close> is a write through a null pointer, and the
  call has no result.
\<close>

datatype fault = Null_pointer_write

definition Insert :: "bool \<Rightarrow> int \<Rightarrow> int list \<Rightarrow> fault + (int list \<times> int)" where
  "Insert malloc_ok value head =
     (let (pred, curr) = scan value [] head
      in case curr of
           [] \<Rightarrow> (if malloc_ok then Inr (pred @ [value], 1) else Inl Null_pointer_write)
         | d # next \<Rightarrow>
             (if d > value
              then (if malloc_ok then Inr (pred @ value # d # next, 1)
                    else Inl Null_pointer_write)
              else Inr (head, 0)))"

definition Member :: "int \<Rightarrow> int list \<Rightarrow> int" where
  "Member value head =
     (case snd (scan value [] head) of
        [] \<Rightarrow> 0
      | d # next \<Rightarrow> (if d > value then 0 else 1))"

definition Delete :: "int \<Rightarrow> int list \<Rightarrow> int list \<times> int" where
  "Delete value head =
     (let (pred, curr) = scan value [] head
      in case curr of
           [] \<Rightarrow> (head, 0)
         | d # next \<Rightarrow> (if d = value then (pred @ next, 1) else (head, 0)))"

text \<open>
  A sequence of calls on the list. An \<open>Insert\<close> call carries the outcome of its
  \<open>malloc\<close>; the sequence stops at a call that does not complete.
\<close>

datatype list_call = Insert_call bool int | Delete_call int

fun run_calls :: "list_call list \<Rightarrow> int list \<Rightarrow> fault + int list" where
  "run_calls [] head = Inr head"
| "run_calls (Insert_call malloc_ok value # cs) head =
     (case Insert malloc_ok value head of
        Inl f \<Rightarrow> Inl f
      | Inr (head1, rv) \<Rightarrow> run_calls cs head1)"
| "run_calls (Delete_call value # cs) head = run_calls cs (fst (Delete value head))"

fun malloc_succeeds :: "list_call \<Rightarrow> bool" where
  "malloc_succeeds (Insert_call malloc_ok value) = malloc_ok"
| "malloc_succeeds (Delete_call value) = True"

section \<open>The workload driver of task3\_my\_rwlock.c\<close>

type_synonym u32 = "32 word"

text \<open>
  \<open>my_rand\<close> on a 32-bit \<open>unsigned\<close>: the returned value and the updated seed.
\<close>

definition my_rand :: "u32 \<Rightarrow> u32 \<times> u32" where
  "my_rand seed =
     (let seed1 = seed * 1103515245 + 12345
      in ((seed1 div 65536) mod 32768, seed1))"

definition MAX_KEY :: int where
  "MAX_KEY = 100000000"

text \<open>
  \<open>val = my_rand(&seed) % MAX_KEY\<close>: the \<open>int\<close> constant is converted to
  \<open>unsigned\<close>, the remainder is taken there and stored in the \<open>int\<close> \<open>val\<close>.
\<close>

definition draw_key :: "u32 \<Rightarrow> int \<times> u32" where
  "draw_key seed =
     (let (r, seed1) = my_rand seed
      in (sint (r mod word_of_int MAX_KEY), seed1))"

text \<open>C's \<open>/\<close> on \<open>int\<close> truncates towards zero.\<close>

definition c_div :: "int \<Rightarrow> int \<Rightarrow> int" where
  "c_div a b = (if (a < 0) = (b < 0) then \<bar>a\<bar> div \<bar>b\<bar> else - (\<bar>a\<bar> div \<bar>b\<bar>))"

text \<open>
  \<open>Thread_work\<close>. The worker's own state is its seed and its three local counters;
  the calls it makes on the shared list, each inside its lock and unlock, are recorded
  in order. The two comparisons of doubles that choose the operation are parameters,
  as functions of the value \<open>my_rand\<close> returned for \<open>which_op\<close>:
  \<open>below_search r\<close> is \<open>which_op < search_percent\<close> and \<open>below_insert r\<close> is
  \<open>which_op < search_percent + insert_percent\<close>.
\<close>

datatype worker_call = Do_member int | Do_insert int | Do_delete int

fun key_of :: "worker_call \<Rightarrow> int" where
  "key_of (Do_member val) = val"
| "key_of (Do_insert val) = val"
| "key_of (Do_delete val) = val"

fun is_member_call :: "worker_call \<Rightarrow> bool" where
  "is_member_call (Do_member val) = True"
| "is_member_call c = False"

fun is_insert_call :: "worker_call \<Rightarrow> bool" where
  "is_insert_call (Do_insert val) = True"
| "is_insert_call c = False"

fun is_delete_call :: "worker_call \<Rightarrow> bool" where
  "is_delete_call (Do_delete val) = True"
| "is_delete_call c = False"

record local_counts =
  my_member_count :: int
  my_insert_count :: int
  my_delete_count :: int

function Thread_loop ::
  "(u32 \<Rightarrow> bool) \<Rightarrow> (u32 \<Rightarrow> bool) \<Rightarrow> int \<Rightarrow> int \<Rightarrow> u32 \<Rightarrow>
   worker_call list \<Rightarrow> local_counts \<Rightarrow> worker_call list \<times> local_counts" where
  "Thread_loop below_search below_insert ops_per_thread i seed calls c =
     (if i < ops_per_thread then
        (let (r, seed1) = my_rand seed;
             (val, seed2) = draw_key seed1
         in if below_search r then
              Thread_loop below_search below_insert ops_per_thread (i + 1) seed2
                (calls @ [Do_member val]) (c\<lparr>my_member_count := my_member_count c + 1\<rparr>)
            else if below_insert r then
              Thread_loop below_search below_insert ops_per_thread (i + 1) seed2
                (calls @ [Do_insert val]) (c\<lparr>my_insert_count := my_insert_count c + 1\<rparr>)
            else
              Thread_loop below_search below_insert ops_per_thread (i + 1) seed2
                (calls @ [Do_delete val]) (c\<lparr>my_delete_count := my_delete_count c + 1\<rparr>))
      else (calls, c))"
  by pat_completeness auto
termination
  by (relation "measure (\<lambda>(bs, bi, ops, i, seed, calls, c). nat (ops - i))") auto

declare Thread_loop.simps [simp del]

text \<open>
  The worker of rank \<open>my_rank\<close>, started when \<open>time(NULL)\<close> is \<open>now\<close>, up to the
  point where it takes \<open>count_mutex\<close>.
\<close>

definition Thread_work ::
  "(u32 \<Rightarrow> bool) \<Rightarrow> (u32 \<Rightarrow> bool) \<Rightarrow> int \<Rightarrow> int \<Rightarrow> nat \<Rightarrow> int \<Rightarrow>
   worker_call list \<times> local_counts" where
  "Thread_work below_search below_insert total_ops thread_count my_rank now =
     Thread_loop below_search below_insert (c_div total_ops thread_count) 0
       (word_of_int (int my_rank + now)) []
       \<lparr>my_member_count = 0, my_insert_count = 0, my_delete_count = 0\<rparr>"

text \<open>
  Each local counter is the number of calls of its kind made so far.
\<close>

definition tally :: "worker_call list \<Rightarrow> local_counts \<Rightarrow> bool" where
  "tally calls c \<longleftrightarrow>
     my_member_count c = int (length (filter is_member_call calls)) \<and>
     my_insert_count c = int (length (filter is_insert_call calls)) \<and>
     my_delete_count c = int (length (filter is_delete_call calls))"

text \<open>The global counters and the critical section under \<open>count_mutex\<close>.\<close>

record totals =
  member_count :: int
  insert_count :: int
  delete_count :: int

definition fold_in :: "totals \<Rightarrow> local_counts \<Rightarrow> totals" where
  "fold_in g c =
     \<lparr>member_count = member_count g + my_member_count c,
      insert_count = insert_count g + my_insert_count c,
      delete_count = delete_count g + my_delete_count c\<rparr>"

text \<open>
  All workers joined: \<open>order\<close> lists the ranks in the order in which the threads took
  \<open>count_mutex\<close>, \<open>now my_rank\<close> is the time each worker read; the globals start at
  zero.
\<close>

definition joined_totals ::
  "(u32 \<Rightarrow> bool) \<Rightarrow> (u32 \<Rightarrow> bool) \<Rightarrow> int \<Rightarrow> int \<Rightarrow> (nat \<Rightarrow> int) \<Rightarrow> nat list \<Rightarrow>
   totals" where
  "joined_totals below_search below_insert total_ops thread_count now order =
     foldl fold_in \<lparr>member_count = 0, insert_count = 0, delete_count = 0\<rparr>
       (map (\<lambda>my_rank. snd (Thread_work below_search below_insert total_ops thread_count
                              my_rank (now my_rank))) order)"

section \<open>Properties of the lock\<close>

lemma step_exclusion:
  assumes "step e s = Some (s1, out)"
    and "\<not> (writer_active (lock s) \<noteq> 0 \<and> active_readers (lock s) > 0)"
  shows "\<not> (writer_active (lock s1) \<noteq> 0 \<and> active_readers (lock s1) > 0)"
proof (cases e)
  case (Rdlock t)
  then show ?thesis using assms
    by (auto simp: rdlock_register_def rdlock_must_wait_def rdlock_admit_def Let_def
             split: if_splits)
next
  case (Wrlock t)
  then show ?thesis using assms
    by (auto simp: wrlock_register_def wrlock_must_wait_def wrlock_admit_def Let_def
             split: if_splits)
next
  case (Wakeup t)
  then show ?thesis using assms
    by (auto simp: rdlock_must_wait_def rdlock_admit_def wrlock_must_wait_def wrlock_admit_def
                   Let_def
             split: if_splits)
next
  case (Unlock t)
  then show ?thesis using assms
    by (auto simp: unlock_section_def Let_def split: if_splits)
qed

lemma run_exclusion:
  "run es s = Some (s1, obs) \<Longrightarrow>
   \<not> (writer_active (lock s) \<noteq> 0 \<and> active_readers (lock s) > 0) \<Longrightarrow>
   \<not> (writer_active (lock s1) \<noteq> 0 \<and> active_readers (lock s1) > 0)"
proof (induction es arbitrary: s obs)
  case Nil
  then show ?case by simp
next
  case (Cons e es)
  from Cons.prems(1) obtain s2 out obs2 where
    st: "step e s = Some (s2, out)" and rn: "run es s2 = Some (s1, obs2)"
    by (auto split: option.splits prod.splits)
  show ?case using Cons.IH[OF rn step_exclusion[OF st Cons.prems(2)]] .
qed

text \<open>
  C1. In every state reached from the initial state by any schedule of read
  acquisitions, write acquisitions, wakeups and releases, \<open>writer_active\<close> and
  \<open>active_readers > 0\<close> do not hold together.
\<close>

theorem mutual_exclusion:
  assumes "run es (init_sys n) = Some (s, obs)"
  shows "\<not> (writer_active (lock s) \<noteq> 0 \<and> active_readers (lock s) > 0)"
  using run_exclusion[OF assms] by (simp add: init_sys_def)

theorem mutual_exclusion_witness:
  "run [Rdlock 0, Rdlock 1, Wrlock 2, Unlock 0, Unlock 1, Wakeup 2] (init_sys 3)
     = Some (\<lparr>lock = \<lparr>active_readers = 0, waiting_readers = 0, waiting_writers = 0,
                       writer_active = 1\<rparr>,
              pcs = [Running, Running, Running]\<rparr>,
             [(0, Read_admitted), (1, Read_admitted), (2, Blocked), (0, Released []),
              (1, Released [Signal_write_cond]), (2, Write_admitted)])
   \<and> \<not> (writer_active \<lparr>active_readers = 0, waiting_readers = 0, waiting_writers = 0,
                          writer_active = 1\<rparr> \<noteq> 0
        \<and> active_readers \<lparr>active_readers = 0, waiting_readers = 0, waiting_writers = 0,
                            writer_active = 1\<rparr> > 0)"
proof -
  have r: "run [Rdlock 0, Rdlock 1, Wrlock 2, Unlock 0, Unlock 1, Wakeup 2] (init_sys 3)
     = Some (\<lparr>lock = \<lparr>active_readers = 0, waiting_readers = 0, waiting_writers = 0,
                       writer_active = 1\<rparr>,
              pcs = [Running, Running, Running]\<rparr>,
             [(0, Read_admitted), (1, Read_admitted), (2, Blocked), (0, Released []),
              (1, Released [Signal_write_cond]), (2, Write_admitted)])"
    by code_simp
  show ?thesis using mutual_exclusion [OF r] r by simp
qed

lemma count_update_other:
  assumes "i < length xs" "xs ! i \<noteq> a" "v \<noteq> a"
  shows "count (mset (xs[i := v])) a = count (mset xs) a"
  using assms by (simp add: mset_update)

lemma count_update_enter:
  assumes "i < length xs" "xs ! i \<noteq> a"
  shows "count (mset (xs[i := a])) a = Suc (count (mset xs) a)"
  using assms by (simp add: mset_update)

lemma count_at_pos:
  assumes "i < length xs" "xs ! i = a"
  shows "0 < count (mset xs) a"
  using assms by (metis count_greater_zero_iff nth_mem_mset)

lemma count_update_leave:
  assumes "i < length xs" "xs ! i = a" "v \<noteq> a"
  shows "Suc (count (mset (xs[i := v])) a) = count (mset xs) a"
  using assms count_at_pos[OF assms(1,2)] by (simp add: mset_update)

lemma step_writers_counted:
  assumes "step e s = Some (s1, out)" "writers_counted s"
  shows "writers_counted s1"
proof (cases e)
  case (Rdlock t)
  then show ?thesis using assms
    by (auto simp: writers_counted_def rdlock_register_def rdlock_must_wait_def rdlock_admit_def
                   Let_def count_update_other
             split: if_splits)
next
  case (Wrlock t)
  then show ?thesis using assms
    by (auto simp: writers_counted_def wrlock_register_def wrlock_must_wait_def wrlock_admit_def
                   Let_def count_update_enter
             split: if_splits)
next
  case (Wakeup t)
  show ?thesis
  proof (cases "pcs s ! t = In_rd_wait")
    case True
    then show ?thesis using assms Wakeup
      by (auto simp: writers_counted_def rdlock_must_wait_def rdlock_admit_def
                     Let_def count_update_other
               split: if_splits)
  next
    case False
    then have w: "t < length (pcs s)" "pcs s ! t = In_wr_wait"
      using assms(1) Wakeup by (auto split: if_splits)
    have "Suc (count (mset ((pcs s)[t := Running])) In_wr_wait) = count (mset (pcs s)) In_wr_wait"
      using count_update_leave[OF w] by simp
    then have "int (count (mset ((pcs s)[t := Running])) In_wr_wait)
                 = int (count (mset (pcs s)) In_wr_wait) - 1"
      by linarith
    then show ?thesis using assms Wakeup w
      by (auto simp: writers_counted_def wrlock_must_wait_def wrlock_admit_def Let_def
               split: if_splits)
  qed
next
  case (Unlock t)
  then show ?thesis using assms
    by (auto simp: writers_counted_def unlock_section_def Let_def split: if_splits)
qed

lemma run_writers_counted:
  "run es s = Some (s1, obs) \<Longrightarrow> writers_counted s \<Longrightarrow> writers_counted s1"
proof (induction es arbitrary: s obs)
  case Nil
  then show ?case by simp
next
  case (Cons e es)
  from Cons.prems(1) obtain s2 out obs2 where
    st: "step e s = Some (s2, out)" and rn: "run es s2 = Some (s1, obs2)"
    by (auto split: option.splits prod.splits)
  show ?case using Cons.IH[OF rn step_writers_counted[OF st Cons.prems(2)]] .
qed

lemma init_writers_counted: "writers_counted (init_sys n)"
  by (simp add: writers_counted_def init_sys_def)

lemma blocked_writer_registered:
  assumes "writers_counted s" "t < length (pcs s)" "pcs s ! t = In_wr_wait"
  shows "waiting_writers (lock s) > 0"
  using assms count_at_pos[OF assms(2,3)] by (simp add: writers_counted_def)

lemma no_read_admission:
  assumes "waiting_writers (lock s) > 0" "step e s = Some (s1, out)"
  shows "out \<noteq> Read_admitted"
proof (cases e)
  case (Rdlock t)
  then show ?thesis using assms
    by (auto simp: rdlock_register_def rdlock_must_wait_def Let_def split: if_splits)
next
  case (Wrlock t)
  then show ?thesis using assms by (auto simp: Let_def split: if_splits)
next
  case (Wakeup t)
  then show ?thesis using assms
    by (auto simp: rdlock_must_wait_def Let_def split: if_splits)
next
  case (Unlock t)
  then show ?thesis using assms by (auto simp: Let_def split: if_splits prod.splits)
qed

lemma blocked_writer_stays:
  assumes "step e s = Some (s1, out)" "t < length (pcs s)" "pcs s ! t = In_wr_wait"
  shows "(thread_of e = t \<and> out = Write_admitted)
         \<or> (t < length (pcs s1) \<and> pcs s1 ! t = In_wr_wait)"
proof (cases e)
  case (Rdlock u)
  then have "u \<noteq> t" using assms by (auto split: if_splits)
  then show ?thesis using assms Rdlock by (auto simp: Let_def split: if_splits)
next
  case (Wrlock u)
  then have "u \<noteq> t" using assms by (auto split: if_splits)
  then show ?thesis using assms Wrlock by (auto simp: Let_def split: if_splits)
next
  case (Wakeup u)
  show ?thesis
  proof (cases "u = t")
    case True
    then show ?thesis using assms Wakeup by (auto simp: Let_def split: if_splits)
  next
    case False
    then show ?thesis using assms Wakeup by (auto simp: Let_def split: if_splits)
  qed
next
  case (Unlock u)
  then show ?thesis using assms by (auto simp: Let_def split: if_splits prod.splits)
qed

lemma no_overtaking:
  "writers_counted s \<Longrightarrow> t < length (pcs s) \<Longrightarrow> pcs s ! t = In_wr_wait \<Longrightarrow>
   run es s = Some (s1, obs) \<Longrightarrow> i < length obs \<Longrightarrow> snd (obs ! i) = Read_admitted \<Longrightarrow>
   \<exists>j<i. obs ! j = (t, Write_admitted)"
proof (induction es arbitrary: s obs i)
  case Nil
  then show ?case by simp
next
  case (Cons e es)
  from Cons.prems(4) obtain s2 out obs2 where
    st: "step e s = Some (s2, out)" and rn: "run es s2 = Some (s1, obs2)"
    and ob: "obs = (thread_of e, out) # obs2"
    by (auto split: option.splits prod.splits)
  have nr: "out \<noteq> Read_admitted"
    using no_read_admission[OF blocked_writer_registered[OF Cons.prems(1,2,3)] st] .
  then obtain i2 where i: "i = Suc i2" using Cons.prems(6) ob by (cases i) auto
  have i2: "i2 < length obs2" "snd (obs2 ! i2) = Read_admitted"
    using Cons.prems(5,6) ob i by auto
  from blocked_writer_stays[OF st Cons.prems(2,3)] show ?case
  proof
    assume "thread_of e = t \<and> out = Write_admitted"
    then have "obs ! 0 = (t, Write_admitted)" using ob by simp
    then show ?thesis using i by blast
  next
    assume still: "t < length (pcs s2) \<and> pcs s2 ! t = In_wr_wait"
    have "\<exists>j<i2. obs2 ! j = (t, Write_admitted)"
      using Cons.IH[OF step_writers_counted[OF st Cons.prems(1)] _ _ rn i2] still by blast
    then obtain j where "j < i2" "obs2 ! j = (t, Write_admitted)" by blast
    then have "Suc j < i" "obs ! Suc j = (t, Write_admitted)" using i ob by auto
    then show ?thesis by blast
  qed
qed

text \<open>
  C2. Take any reachable state in which thread \<open>t2\<close> is blocked in the wait of
  \<open>my_rwlock_wrlock\<close>, and any schedule from there. Whenever a reader is admitted in
  that schedule, \<open>t2\<close> has been admitted as the writer at an earlier point of it: no
  reader, called before or after, gets in ahead of the blocked writer. And in any
  state with \<open>writer_active\<close> set or \<open>waiting_writers > 0\<close>, a thread calling
  \<open>my_rwlock_rdlock\<close> only increments \<open>waiting_readers\<close> and blocks, and a reader
  woken in its wait changes nothing and blocks again.
\<close>

theorem writer_priority:
  assumes "run es0 (init_sys n) = Some (s, obs0)"
    and "t2 < length (pcs s)" and "pcs s ! t2 = In_wr_wait"
    and "run es s = Some (s1, obs)"
  shows "(\<forall>i<length obs. snd (obs ! i) = Read_admitted \<longrightarrow>
            (\<exists>j<i. obs ! j = (t2, Write_admitted)))
       \<and> (\<forall>(r::sys) u. u < length (pcs r)
                 \<and> (writer_active (lock r) \<noteq> 0 \<or> waiting_writers (lock r) > 0) \<longrightarrow>
            (pcs r ! u = Running \<longrightarrow>
               step (Rdlock u) r =
                 Some (\<lparr>lock = (lock r)\<lparr>waiting_readers := waiting_readers (lock r) + 1\<rparr>,
                        pcs = (pcs r)[u := In_rd_wait]\<rparr>, Blocked))
          \<and> (pcs r ! u = In_rd_wait \<longrightarrow> step (Wakeup u) r = Some (r, Blocked)))"
proof (intro conjI allI impI)
  fix i
  assume "i < length obs" "snd (obs ! i) = Read_admitted"
  then show "\<exists>j<i. obs ! j = (t2, Write_admitted)"
    using no_overtaking[OF run_writers_counted[OF assms(1) init_writers_counted] assms(2,3,4)]
    by blast
next
  fix r :: sys and u
  assume a: "u < length (pcs r)
             \<and> (writer_active (lock r) \<noteq> 0 \<or> waiting_writers (lock r) > 0)"
    and "pcs r ! u = Running"
  then show "step (Rdlock u) r =
                 Some (\<lparr>lock = (lock r)\<lparr>waiting_readers := waiting_readers (lock r) + 1\<rparr>,
                        pcs = (pcs r)[u := In_rd_wait]\<rparr>, Blocked)"
    by (auto simp: rdlock_register_def rdlock_must_wait_def Let_def)
next
  fix r :: sys and u
  assume a: "u < length (pcs r)
             \<and> (writer_active (lock r) \<noteq> 0 \<or> waiting_writers (lock r) > 0)"
    and "pcs r ! u = In_rd_wait"
  then show "step (Wakeup u) r = Some (r, Blocked)"
    by (auto simp: rdlock_must_wait_def)
qed

theorem writer_priority_witness:
  "run [Rdlock 0, Wrlock 1] (init_sys 3)
     = Some (\<lparr>lock = \<lparr>active_readers = 1, waiting_readers = 0, waiting_writers = 1,
                       writer_active = 0\<rparr>,
              pcs = [Running, In_wr_wait, Running]\<rparr>,
             [(0, Read_admitted), (1, Blocked)])
   \<and> run [Rdlock 2, Unlock 0, Wakeup 2, Wakeup 1, Unlock 1, Wakeup 2]
        \<lparr>lock = \<lparr>active_readers = 1, waiting_readers = 0, waiting_writers = 1,
                  writer_active = 0\<rparr>,
         pcs = [Running, In_wr_wait, Running]\<rparr>
     = Some (\<lparr>lock = \<lparr>active_readers = 1, waiting_readers = 0, waiting_writers = 0,
                       writer_active = 0\<rparr>,
              pcs = [Running, Running, Running]\<rparr>,
             [(2, Blocked), (0, Released [Signal_write_cond]), (2, Blocked),
              (1, Write_admitted), (1, Released [Broadcast_read_cond]), (2, Read_admitted)])
   \<and> (\<exists>j<5. [(2::nat, Blocked), (0, Released [Signal_write_cond]), (2, Blocked),
                (1, Write_admitted), (1, Released [Broadcast_read_cond]),
                (2, Read_admitted)] ! j = (1, Write_admitted))
   \<and> step (Rdlock 2)
        \<lparr>lock = \<lparr>active_readers = 1, waiting_readers = 0, waiting_writers = 1,
                  writer_active = 0\<rparr>,
         pcs = [Running, In_wr_wait, Running]\<rparr>
     = Some (\<lparr>lock = \<lparr>active_readers = 1, waiting_readers = 1, waiting_writers = 1,
                       writer_active = 0\<rparr>,
              pcs = [Running, In_wr_wait, In_rd_wait]\<rparr>, Blocked)
   \<and> step (Wakeup 2)
        \<lparr>lock = \<lparr>active_readers = 1, waiting_readers = 1, waiting_writers = 1,
                  writer_active = 0\<rparr>,
         pcs = [Running, In_wr_wait, In_rd_wait]\<rparr>
     = Some (\<lparr>lock = \<lparr>active_readers = 1, waiting_readers = 1, waiting_writers = 1,
                       writer_active = 0\<rparr>,
              pcs = [Running, In_wr_wait, In_rd_wait]\<rparr>, Blocked)"
proof -
  have r0: "run [Rdlock 0, Wrlock 1] (init_sys 3)
     = Some (\<lparr>lock = \<lparr>active_readers = 1, waiting_readers = 0, waiting_writers = 1,
                       writer_active = 0\<rparr>,
              pcs = [Running, In_wr_wait, Running]\<rparr>,
             [(0, Read_admitted), (1, Blocked)])"
    by code_simp
  have r1: "run [Rdlock 2, Unlock 0, Wakeup 2, Wakeup 1, Unlock 1, Wakeup 2]
        \<lparr>lock = \<lparr>active_readers = 1, waiting_readers = 0, waiting_writers = 1,
                  writer_active = 0\<rparr>,
         pcs = [Running, In_wr_wait, Running]\<rparr>
     = Some (\<lparr>lock = \<lparr>active_readers = 1, waiting_readers = 0, waiting_writers = 0,
                       writer_active = 0\<rparr>,
              pcs = [Running, Running, Running]\<rparr>,
             [(2, Blocked), (0, Released [Signal_write_cond]), (2, Blocked),
              (1, Write_admitted), (1, Released [Broadcast_read_cond]), (2, Read_admitted)])"
    by code_simp
  have b: "1 < length (pcs \<lparr>lock = \<lparr>active_readers = 1, waiting_readers = 0,
                                    waiting_writers = 1, writer_active = 0\<rparr>,
                           pcs = [Running, In_wr_wait, Running]\<rparr>)"
      "pcs \<lparr>lock = \<lparr>active_readers = 1, waiting_readers = 0,
                                    waiting_writers = 1, writer_active = 0\<rparr>,
                           pcs = [Running, In_wr_wait, Running]\<rparr> ! 1 = In_wr_wait"
    by simp_all
  note wp = writer_priority [OF r0 b r1]
  have trace: "\<exists>j<5. [(2::nat, Blocked), (0, Released [Signal_write_cond]), (2, Blocked),
                (1, Write_admitted), (1, Released [Broadcast_read_cond]),
                (2, Read_admitted)] ! j = (1, Write_admitted)"
    using wp [THEN conjunct1, rule_format, of 5] by simp
  have call: "step (Rdlock 2)
        \<lparr>lock = \<lparr>active_readers = 1, waiting_readers = 0, waiting_writers = 1,
                  writer_active = 0\<rparr>,
         pcs = [Running, In_wr_wait, Running]\<rparr>
     = Some (\<lparr>lock = \<lparr>active_readers = 1, waiting_readers = 1, waiting_writers = 1,
                       writer_active = 0\<rparr>,
              pcs = [Running, In_wr_wait, In_rd_wait]\<rparr>, Blocked)"
    using wp [THEN conjunct2, rule_format, THEN conjunct1,
              of 2 "\<lparr>lock = \<lparr>active_readers = 1, waiting_readers = 0, waiting_writers = 1,
                              writer_active = 0\<rparr>,
                     pcs = [Running, In_wr_wait, Running]\<rparr>"]
    by simp
  have wake: "step (Wakeup 2)
        \<lparr>lock = \<lparr>active_readers = 1, waiting_readers = 1, waiting_writers = 1,
                  writer_active = 0\<rparr>,
         pcs = [Running, In_wr_wait, In_rd_wait]\<rparr>
     = Some (\<lparr>lock = \<lparr>active_readers = 1, waiting_readers = 1, waiting_writers = 1,
                       writer_active = 0\<rparr>,
              pcs = [Running, In_wr_wait, In_rd_wait]\<rparr>, Blocked)"
    using wp [THEN conjunct2, rule_format, THEN conjunct2,
              of 2 "\<lparr>lock = \<lparr>active_readers = 1, waiting_readers = 1, waiting_writers = 1,
                              writer_active = 0\<rparr>,
                     pcs = [Running, In_wr_wait, In_rd_wait]\<rparr>"]
    by simp
  show ?thesis using r0 r1 trace call wake by blast
qed

text \<open>
  C5. \<open>my_rwlock_unlock\<close> on a valid lock returns 0. With \<open>writer_active\<close> set it
  clears the flag and makes one call: \<open>pthread_cond_signal\<close> on \<open>write_cond\<close> when
  \<open>waiting_writers > 0\<close>, otherwise \<open>pthread_cond_broadcast\<close> on \<open>read_cond\<close>.
  With \<open>writer_active\<close> clear and \<open>active_readers > 0\<close> it decrements
  \<open>active_readers\<close> and signals \<open>write_cond\<close> once exactly when the count has reached
  zero and \<open>waiting_writers > 0\<close>; otherwise it makes no call.
\<close>

theorem unlock_wake_policy:
  "(writer_active l \<noteq> 0 \<longrightarrow>
      my_rwlock_unlock (Some l) =
        (0, Some (l\<lparr>writer_active := 0\<rparr>),
         if waiting_writers l > 0 then [Signal_write_cond] else [Broadcast_read_cond]))
   \<and> (writer_active l = 0 \<and> active_readers l > 0 \<longrightarrow>
      my_rwlock_unlock (Some l) =
        (0, Some (l\<lparr>active_readers := active_readers l - 1\<rparr>),
         if active_readers l - 1 = 0 \<and> waiting_writers l > 0 then [Signal_write_cond] else []))"
  by (simp add: my_rwlock_unlock_def unlock_section_def Let_def)

theorem unlock_wake_policy_witness:
  "my_rwlock_unlock (Some \<lparr>active_readers = 0, waiting_readers = 2, waiting_writers = 1,
                            writer_active = 1\<rparr>)
     = (0, Some \<lparr>active_readers = 0, waiting_readers = 2, waiting_writers = 1,
                 writer_active = 0\<rparr>, [Signal_write_cond])
   \<and> my_rwlock_unlock (Some \<lparr>active_readers = 0, waiting_readers = 2, waiting_writers = 0,
                            writer_active = 1\<rparr>)
     = (0, Some \<lparr>active_readers = 0, waiting_readers = 2, waiting_writers = 0,
                 writer_active = 0\<rparr>, [Broadcast_read_cond])
   \<and> my_rwlock_unlock (Some \<lparr>active_readers = 1, waiting_readers = 1, waiting_writers = 1,
                            writer_active = 0\<rparr>)
     = (0, Some \<lparr>active_readers = 0, waiting_readers = 1, waiting_writers = 1,
                 writer_active = 0\<rparr>, [Signal_write_cond])
   \<and> my_rwlock_unlock (Some \<lparr>active_readers = 2, waiting_readers = 1, waiting_writers = 1,
                            writer_active = 0\<rparr>)
     = (0, Some \<lparr>active_readers = 1, waiting_readers = 1, waiting_writers = 1,
                 writer_active = 0\<rparr>, [])"
  using
    unlock_wake_policy [of "\<lparr>active_readers = 0, waiting_readers = 2, waiting_writers = 1,
                             writer_active = 1\<rparr>"]
    unlock_wake_policy [of "\<lparr>active_readers = 0, waiting_readers = 2, waiting_writers = 0,
                             writer_active = 1\<rparr>"]
    unlock_wake_policy [of "\<lparr>active_readers = 1, waiting_readers = 1, waiting_writers = 1,
                             writer_active = 0\<rparr>"]
    unlock_wake_policy [of "\<lparr>active_readers = 2, waiting_readers = 1, waiting_writers = 1,
                             writer_active = 0\<rparr>"]
  by simp

text \<open>
  C8. \<open>my_rwlock_unlock\<close> on a valid lock with \<open>writer_active\<close> clear and
  \<open>active_readers = 0\<close> returns 0, leaves all four fields as they were and makes no
  call on either condition variable.
\<close>

theorem unlock_without_hold_inert:
  assumes "writer_active l = 0" and "active_readers l = 0"
  shows "my_rwlock_unlock (Some l) = (0, Some l, [])"
  using assms by (simp add: my_rwlock_unlock_def unlock_section_def)

theorem unlock_without_hold_inert_witness:
  "writer_active \<lparr>active_readers = 0, waiting_readers = 1, waiting_writers = 2,
                  writer_active = 0\<rparr> = 0
   \<and> active_readers \<lparr>active_readers = 0, waiting_readers = 1, waiting_writers = 2,
                     writer_active = 0\<rparr> = 0
   \<and> my_rwlock_unlock (Some \<lparr>active_readers = 0, waiting_readers = 1, waiting_writers = 2,
                              writer_active = 0\<rparr>)
       = (0, Some \<lparr>active_readers = 0, waiting_readers = 1, waiting_writers = 2,
                   writer_active = 0\<rparr>, [])"
  using unlock_without_hold_inert
    [of "\<lparr>active_readers = 0, waiting_readers = 1, waiting_writers = 2, writer_active = 0\<rparr>"]
  by simp

section \<open>Properties of the sorted list\<close>

text \<open>The scan loop stops at the first key that is not below \<open>value\<close>.\<close>

lemma scan_takeWhile:
  "scan v pred xs = (pred @ takeWhile (\<lambda>k. k < v) xs, dropWhile (\<lambda>k. k < v) xs)"
  by (induction xs arbitrary: pred) auto

lemma Insert_unfold:
  "Insert m v xs =
     (case dropWhile (\<lambda>k. k < v) xs of
        [] \<Rightarrow> (if m then Inr (takeWhile (\<lambda>k. k < v) xs @ [v], 1) else Inl Null_pointer_write)
      | d # nxt \<Rightarrow>
          (if d > v
           then (if m then Inr (takeWhile (\<lambda>k. k < v) xs @ v # d # nxt, 1)
                 else Inl Null_pointer_write)
           else Inr (xs, 0)))"
  by (simp add: Insert_def scan_takeWhile)

lemma Delete_unfold:
  "Delete v xs =
     (case dropWhile (\<lambda>k. k < v) xs of
        [] \<Rightarrow> (xs, 0)
      | d # nxt \<Rightarrow> (if d = v then (takeWhile (\<lambda>k. k < v) xs @ nxt, 1) else (xs, 0)))"
  by (simp add: Delete_def scan_takeWhile)

lemma takeWhile_less: "k \<in> set (takeWhile (\<lambda>k. k < (v::int)) xs) \<Longrightarrow> k < v"
  by (auto dest: set_takeWhileD)

lemma sorted_dropWhile_ge:
  "sorted_wrt (<) xs \<Longrightarrow> k \<in> set (dropWhile (\<lambda>k. k < (v::int)) xs) \<Longrightarrow> v \<le> k"
  by (induction xs) (auto split: if_splits)

lemma sorted_parts:
  assumes "sorted_wrt (<) (xs::int list)"
  shows "sorted_wrt (<) (takeWhile (\<lambda>k. k < v) xs)" "sorted_wrt (<) (dropWhile (\<lambda>k. k < v) xs)"
  using assms by (metis sorted_wrt_append takeWhile_dropWhile_id)+

lemma dropWhile_head_ge:
  assumes "dropWhile (\<lambda>k. k < (v::int)) xs = d # nxt"
  shows "v \<le> d" "d \<in> set xs"
proof -
  have "\<not> d < v" using assms by (metis hd_dropWhile list.sel(1) list.distinct(1))
  then show "v \<le> d" by simp
  show "d \<in> set xs" using assms by (metis list.set_intros(1) set_dropWhileD)
qed

lemma present_at_scan:
  assumes "sorted_wrt (<) (xs::int list)" "v \<in> set xs"
  shows "\<exists>nxt. dropWhile (\<lambda>k. k < v) xs = v # nxt"
proof -
  have "v \<notin> set (takeWhile (\<lambda>k. k < v) xs)" using takeWhile_less[of v v xs] by auto
  then have in_d: "v \<in> set (dropWhile (\<lambda>k. k < v) xs)" using assms(2)
    by (metis Un_iff set_append takeWhile_dropWhile_id)
  then obtain d nxt where dn: "dropWhile (\<lambda>k. k < v) xs = d # nxt"
    by (cases "dropWhile (\<lambda>k. k < v) xs") auto
  have "sorted_wrt (<) (d # nxt)" using sorted_parts(2)[OF assms(1), of v] dn by simp
  moreover have "v \<le> d" using dropWhile_head_ge(1)[OF dn] .
  moreover have "v \<in> set (d # nxt)" using in_d dn by simp
  ultimately have "d = v" by auto
  then show ?thesis using dn by simp
qed

lemma Insert_present:
  assumes "sorted_wrt (<) xs" "v \<in> set xs"
  shows "Insert m v xs = Inr (xs, 0)"
proof -
  obtain nxt where "dropWhile (\<lambda>k. k < v) xs = v # nxt"
    using present_at_scan[OF assms] by blast
  then show ?thesis unfolding Insert_unfold by simp
qed

lemma Insert_absent:
  assumes "v \<notin> set xs"
  shows "Insert m v xs =
     (if m then Inr (takeWhile (\<lambda>k. k < v) xs @ v # dropWhile (\<lambda>k. k < v) xs, 1)
      else Inl Null_pointer_write)"
proof (cases "dropWhile (\<lambda>k. k < v) xs")
  case Nil
  show ?thesis unfolding Insert_unfold Nil by simp
next
  case (Cons d nxt)
  have "d \<noteq> v" using dropWhile_head_ge(2)[OF Cons] assms by blast
  then have "d > v" using dropWhile_head_ge(1)[OF Cons] by simp
  then show ?thesis unfolding Insert_unfold Cons by simp
qed

lemma sorted_splice:
  "sorted_wrt (<) xs \<Longrightarrow> v \<notin> set xs \<Longrightarrow>
   sorted_wrt (<) (takeWhile (\<lambda>k. k < v) xs @ v # dropWhile (\<lambda>k. k < (v::int)) xs)"
proof (induction xs)
  case Nil
  then show ?case by simp
next
  case (Cons x xs)
  have rest: "sorted_wrt (<) (takeWhile (\<lambda>k. k < v) xs @ v # dropWhile (\<lambda>k. k < v) xs)"
    using Cons by simp
  have above: "\<forall>y \<in> set xs. x < y" using Cons.prems(1) by simp
  show ?case
  proof (cases "x < v")
    case True
    have "\<forall>y \<in> set (takeWhile (\<lambda>k. k < v) xs @ v # dropWhile (\<lambda>k. k < v) xs). x < y"
      using above True by (auto dest: set_takeWhileD set_dropWhileD)
    then show ?thesis using True rest by simp
  next
    case False
    then have "v < x" using Cons.prems(2) by simp
    then have "\<forall>y \<in> set (x # xs). v < y" using above by auto
    then show ?thesis using False Cons.prems(1) by simp
  qed
qed

lemma scan_spliced:
  "takeWhile (\<lambda>k. k < v) (takeWhile (\<lambda>k. k < v) xs @ v # ys) = takeWhile (\<lambda>k. k < (v::int)) xs"
  "dropWhile (\<lambda>k. k < v) (takeWhile (\<lambda>k. k < v) xs @ v # ys) = v # ys"
proof -
  have lt: "\<And>k. k \<in> set (takeWhile (\<lambda>k. k < v) xs) \<Longrightarrow> k < v" using takeWhile_less by blast
  show "takeWhile (\<lambda>k. k < v) (takeWhile (\<lambda>k. k < v) xs @ v # ys) = takeWhile (\<lambda>k. k < (v::int)) xs"
    using lt by (simp add: takeWhile_append2)
  show "dropWhile (\<lambda>k. k < v) (takeWhile (\<lambda>k. k < v) xs @ v # ys) = v # ys"
    using lt by (simp add: dropWhile_append2)
qed

lemma Delete_spliced:
  "Delete v (takeWhile (\<lambda>k. k < v) xs @ v # dropWhile (\<lambda>k. k < v) xs) = (xs, 1)"
  unfolding Delete_unfold scan_spliced by simp

lemma Insert_spliced:
  "Insert m v (takeWhile (\<lambda>k. k < v) xs @ v # ys) = Inr (takeWhile (\<lambda>k. k < v) xs @ v # ys, 0)"
  unfolding Insert_unfold scan_spliced by simp

lemma Delete_sorted:
  assumes "sorted_wrt (<) xs"
  shows "sorted_wrt (<) (fst (Delete v xs))"
proof (cases "dropWhile (\<lambda>k. k < v) xs")
  case Nil
  show ?thesis unfolding Delete_unfold Nil using assms by simp
next
  case (Cons d nxt)
  have "sorted_wrt (<) (takeWhile (\<lambda>k. k < v) xs @ d # nxt)"
    using assms Cons by (metis takeWhile_dropWhile_id)
  then have "sorted_wrt (<) (takeWhile (\<lambda>k. k < v) xs @ nxt)"
    by (auto simp: sorted_wrt_append)
  then show ?thesis unfolding Delete_unfold Cons using assms by simp
qed

lemma Insert_sorted:
  assumes "sorted_wrt (<) xs" "Insert m v xs = Inr (ys, rv)"
  shows "sorted_wrt (<) ys"
proof (cases "v \<in> set xs")
  case True
  then show ?thesis using Insert_present[OF assms(1) True, of m] assms by simp
next
  case False
  then show ?thesis
    using Insert_absent[OF False, of m] sorted_splice[OF assms(1) False] assms(2)
    by (cases m) simp_all
qed

lemma run_calls_sorted:
  "sorted_wrt (<) xs \<Longrightarrow> run_calls cs xs = Inr ys \<Longrightarrow> sorted_wrt (<) ys"
proof (induction cs arbitrary: xs)
  case Nil
  then show ?case by simp
next
  case (Cons c cs)
  show ?case
  proof (cases c)
    case (Insert_call m v)
    then obtain zs rv where i: "Insert m v xs = Inr (zs, rv)" and r: "run_calls cs zs = Inr ys"
      using Cons.prems(2) by (auto split: sum.splits)
    show ?thesis using Cons.IH[OF Insert_sorted[OF Cons.prems(1) i] r] .
  next
    case (Delete_call v)
    then have "run_calls cs (fst (Delete v xs)) = Inr ys" using Cons.prems(2) by simp
    then show ?thesis using Cons.IH[OF Delete_sorted[OF Cons.prems(1)]] by blast
  qed
qed

lemma Insert_completes: "\<exists>ys rv. Insert True v xs = Inr (ys, rv)"
  unfolding Insert_unfold by (simp split: list.splits)

lemma run_calls_completes:
  "\<forall>c \<in> set cs. malloc_succeeds c \<Longrightarrow> \<exists>ys. run_calls cs xs = Inr ys"
proof (induction cs arbitrary: xs)
  case Nil
  then show ?case by simp
next
  case (Cons c cs)
  show ?case
  proof (cases c)
    case (Insert_call m v)
    then have "m" using Cons.prems by simp
    then obtain zs rv where "Insert m v xs = Inr (zs, rv)" using Insert_completes[of v xs] by auto
    then show ?thesis using Cons.IH[of zs] Cons.prems Insert_call by simp
  next
    case (Delete_call v)
    then show ?thesis using Cons.IH[of "fst (Delete v xs)"] Cons.prems by simp
  qed
qed

lemma strict_sorted_distinct: "sorted_wrt (<) (xs::int list) \<Longrightarrow> distinct xs"
  using strict_sorted_iff by blast


lemma set_spliced:
  "set (takeWhile (\<lambda>k. k < v) xs @ v # dropWhile (\<lambda>k. k < (v::int)) xs) = insert v (set xs)"
proof -
  have "set (takeWhile (\<lambda>k. k < v) xs) \<union> set (dropWhile (\<lambda>k. k < v) xs) = set xs"
    by (metis set_append takeWhile_dropWhile_id)
  then show ?thesis by auto
qed

text \<open>
  C3. Starting from the empty list, after every completed call of any sequence of
  \<open>Insert\<close> and \<open>Delete\<close> calls the keys are strictly ascending and free of
  duplicates; and a sequence completes whenever every \<open>malloc\<close> in it returns a node.
\<close>

theorem list_stays_sorted:
  "((\<forall>c \<in> set cs. malloc_succeeds c) \<longrightarrow> (\<exists>keys. run_calls cs [] = Inr keys)) \<and>
   (\<forall>n keys. run_calls (take n cs) [] = Inr keys \<longrightarrow> sorted_wrt (<) keys \<and> distinct keys)"
proof (intro conjI impI allI)
  assume "\<forall>c \<in> set cs. malloc_succeeds c"
  then show "\<exists>keys. run_calls cs [] = Inr keys" by (rule run_calls_completes)
next
  fix n keys
  assume r: "run_calls (take n cs) [] = Inr keys"
  have "sorted_wrt (<) ([]::int list)" by simp
  then show "sorted_wrt (<) keys" using r by (rule run_calls_sorted)
  then show "distinct keys" by (rule strict_sorted_distinct)
qed

theorem list_stays_sorted_witness:
  "run_calls (take 3 [Insert_call True 5, Insert_call True 2, Insert_call True 5, Delete_call 2]) []
     = Inr [2, 5]
   \<and> run_calls [Insert_call True 5, Insert_call True 2, Insert_call True 5, Delete_call 2] []
     = Inr [5]
   \<and> sorted_wrt (<) [2, 5::int] \<and> distinct [2, 5::int]"
  using list_stays_sorted
    [of "[Insert_call True 5, Insert_call True 2, Insert_call True 5, Delete_call 2]"]
  by (simp add: Insert_def Delete_def)

text \<open>
  C4. On a strictly ascending list \<open>Insert\<close> scans to the first key that is not below
  \<open>value\<close>. When \<open>value\<close> is in the list it returns 0 and leaves the list as it
  was. Otherwise (its node allocated) it returns 1 and the new list is the keys below
  \<open>value\<close>, then \<open>value\<close>, then the remaining keys: still strictly ascending, with
  exactly \<open>value\<close> added; a second \<open>Insert\<close> of the same key then returns 0 and
  changes nothing.
\<close>

theorem Insert_semantics:
  assumes "sorted_wrt (<) head"
  shows "(if value \<in> set head then Insert malloc_ok value head = Inr (head, 0)
          else Insert True value head =
                 Inr (takeWhile (\<lambda>k. k < value) head @ value # dropWhile (\<lambda>k. k < value) head, 1)
             \<and> sorted_wrt (<)
                 (takeWhile (\<lambda>k. k < value) head @ value # dropWhile (\<lambda>k. k < value) head)
             \<and> set (takeWhile (\<lambda>k. k < value) head @ value # dropWhile (\<lambda>k. k < value) head)
                 = insert value (set head)
             \<and> Insert malloc_ok value
                 (takeWhile (\<lambda>k. k < value) head @ value # dropWhile (\<lambda>k. k < value) head)
                 = Inr (takeWhile (\<lambda>k. k < value) head @ value # dropWhile (\<lambda>k. k < value) head,
                        0))"
proof (cases "value \<in> set head")
  case True
  then show ?thesis using Insert_present[OF assms True] by simp
next
  case False
  then show ?thesis
    using Insert_absent[OF False, of True] sorted_splice[OF assms False]
      set_spliced[of "value" head] Insert_spliced[of malloc_ok "value" head]
    by simp
qed

theorem Insert_semantics_witness:
  "sorted_wrt (<) [1, 3, 5::int]
   \<and> Insert True 4 [1, 3, 5] = Inr ([1, 3, 4, 5], 1)
   \<and> Insert True 4 [1, 3, 4, 5] = Inr ([1, 3, 4, 5], 0)
   \<and> Insert True 3 [1, 3, 5] = Inr ([1, 3, 5], 0)"
  using Insert_semantics [of "[1, 3, 5]" 4 True] Insert_semantics [of "[1, 3, 5]" 3 True]
  by simp

text \<open>
  C7. For a key \<open>k\<close> that is not in the list, \<open>Insert\<close> of \<open>k\<close> (its node
  allocated) returns 1 and \<open>Delete\<close> of \<open>k\<close> on the result returns 1 and gives back
  the list as it was before the insertion. This holds for every list without \<open>k\<close>, the
  strictly ascending ones among them.
\<close>

theorem Insert_Delete_round_trip:
  assumes "k \<notin> set head"
  shows "\<exists>head1. Insert True k head = Inr (head1, 1) \<and> Delete k head1 = (head, 1)"
  using Insert_absent[OF assms, of True] Delete_spliced[of k head] by simp

theorem Insert_Delete_round_trip_witness:
  "(4::int) \<notin> set [1, 3, 5]
   \<and> (\<exists>head1. Insert True 4 [1, 3, 5] = Inr (head1, 1) \<and> Delete 4 head1 = ([1, 3, 5], 1))"
  using Insert_Delete_round_trip [of 4 "[1, 3, 5]"] by simp

text \<open>
  C9. \<open>Insert\<close> does not test what \<open>malloc\<close> returns. When the key is absent and
  \<open>malloc\<close> returns \<open>NULL\<close>, the call writes through the null pointer and returns
  nothing to its caller; the same call with a node allocated inserts the key.
\<close>

theorem Insert_malloc_failure:
  "Insert False 5 [1, 3, 8] = Inl Null_pointer_write
   \<and> Insert True 5 [1, 3, 8] = Inr ([1, 3, 5, 8], 1)"
  by (simp add: Insert_def)

section \<open>Properties of the workload driver\<close>

lemma my_rand_uint_bound: "uint (fst (my_rand seed)) < 32768"
proof -
  have "uint (fst (my_rand seed)) = uint ((seed * 1103515245 + 12345) div 65536) mod 32768"
    by (simp add: my_rand_def Let_def uint_mod)
  then show ?thesis by simp
qed

lemma my_rand_less: "fst (my_rand seed) < 32768"
  using my_rand_uint_bound[of seed] by (simp add: word_less_def)

lemma small_mod_MAX_KEY:
  assumes "(r::u32) < 32768"
  shows "r mod word_of_int MAX_KEY = r"
proof -
  have "(32768::u32) < word_of_int MAX_KEY" by (simp add: MAX_KEY_def)
  then have "r < word_of_int MAX_KEY" using assms by (rule order.strict_trans[rotated])
  then show ?thesis by (rule mod_word_less)
qed

lemma small_sint:
  assumes "uint (r::u32) < 32768"
  shows "sint r = uint r"
proof -
  have "sint r = signed_take_bit 31 (uint r)" by (simp add: sint_uint)
  moreover have "signed_take_bit 31 (uint r) = uint r"
  proof (rule signed_take_bit_int_eq_self)
    have "- (2 ^ 31) \<le> (0::int)" by simp
    also have "0 \<le> uint r" by (rule uint_ge_0)
    finally show "- (2 ^ 31) \<le> uint r" .
    show "uint r < 2 ^ 31" using assms by simp
  qed
  ultimately show ?thesis by simp
qed

lemma draw_key_eq: "fst (draw_key seed) = uint (fst (my_rand seed))"
proof -
  obtain r seed1 where m: "my_rand seed = (r, seed1)" by force
  have u: "uint r < 32768" using my_rand_uint_bound[of seed] m by simp
  have l: "r < 32768" using my_rand_less[of seed] m by simp
  show ?thesis using m small_mod_MAX_KEY[OF l] small_sint[OF u] by (simp add: draw_key_def)
qed

lemma draw_key_range: "0 \<le> fst (draw_key seed)" "fst (draw_key seed) < 32768"
  using my_rand_uint_bound[of seed] by (simp_all add: draw_key_eq)

lemma Thread_loop_keys:
  "\<forall>c \<in> set calls. 0 \<le> key_of c \<and> key_of c < 32768 \<Longrightarrow>
   \<forall>c \<in> set (fst (Thread_loop bs bi ops i seed calls cnt)). 0 \<le> key_of c \<and> key_of c < 32768"
proof (induction bs bi ops i seed calls cnt rule: Thread_loop.induct)
  case (1 bs bi ops i seed calls cnt)
  show ?case
  proof (cases "i < ops")
    case False
    then show ?thesis using "1.prems" by (simp add: Thread_loop.simps)
  next
    case True
    obtain r seed1 where m: "my_rand seed = (r, seed1)" by force
    obtain val seed2 where d: "draw_key seed1 = (val, seed2)" by force
    have v: "0 \<le> val" "val < 32768" using draw_key_range[of seed1] d by simp_all
    consider "bs r" | "\<not> bs r" "bi r" | "\<not> bs r" "\<not> bi r" by blast
    then show ?thesis
    proof cases
      case 1
      have "\<forall>c \<in> set (calls @ [Do_member val]). 0 \<le> key_of c \<and> key_of c < 32768"
        using "1.prems" v by simp
      from "1.IH"(1)[OF True refl m[symmetric] refl d[symmetric] 1 this]
      show ?thesis using True m d 1 by (simp add: Thread_loop.simps[of bs bi ops i])
    next
      case 2
      have "\<forall>c \<in> set (calls @ [Do_insert val]). 0 \<le> key_of c \<and> key_of c < 32768"
        using "1.prems" v by simp
      from "1.IH"(2)[OF True refl m[symmetric] refl d[symmetric] 2 this]
      show ?thesis using True m d 2 by (simp add: Thread_loop.simps[of bs bi ops i])
    next
      case 3
      have "\<forall>c \<in> set (calls @ [Do_delete val]). 0 \<le> key_of c \<and> key_of c < 32768"
        using "1.prems" v by simp
      from "1.IH"(3)[OF True refl m[symmetric] refl d[symmetric] 3 this]
      show ?thesis using True m d 3 by (simp add: Thread_loop.simps[of bs bi ops i])
    qed
  qed
qed

lemma Thread_loop_counts:
  "tally calls cnt \<Longrightarrow>
   tally (fst (Thread_loop bs bi ops i seed calls cnt)) (snd (Thread_loop bs bi ops i seed calls cnt))
   \<and> int (length (fst (Thread_loop bs bi ops i seed calls cnt)))
       = int (length calls) + max 0 (ops - i)"
proof (induction bs bi ops i seed calls cnt rule: Thread_loop.induct)
  case (1 bs bi ops i seed calls cnt)
  show ?case
  proof (cases "i < ops")
    case False
    then show ?thesis using "1.prems" by (simp add: Thread_loop.simps)
  next
    case True
    obtain r seed1 where m: "my_rand seed = (r, seed1)" by force
    obtain val seed2 where d: "draw_key seed1 = (val, seed2)" by force
    have step: "max 0 (ops - (i + 1)) + 1 = max 0 (ops - i)" using True by simp
    consider "bs r" | "\<not> bs r" "bi r" | "\<not> bs r" "\<not> bi r" by blast
    then show ?thesis
    proof cases
      case 1
      have "tally (calls @ [Do_member val]) (cnt\<lparr>my_member_count := my_member_count cnt + 1\<rparr>)"
        using "1.prems" by (simp add: tally_def)
      from "1.IH"(1)[OF True refl m[symmetric] refl d[symmetric] 1 this]
      show ?thesis using True m d 1 step by (simp add: Thread_loop.simps[of bs bi ops i])
    next
      case 2
      have "tally (calls @ [Do_insert val]) (cnt\<lparr>my_insert_count := my_insert_count cnt + 1\<rparr>)"
        using "1.prems" by (simp add: tally_def)
      from "1.IH"(2)[OF True refl m[symmetric] refl d[symmetric] 2 this]
      show ?thesis using True m d 2 step by (simp add: Thread_loop.simps[of bs bi ops i])
    next
      case 3
      have "tally (calls @ [Do_delete val]) (cnt\<lparr>my_delete_count := my_delete_count cnt + 1\<rparr>)"
        using "1.prems" by (simp add: tally_def)
      from "1.IH"(3)[OF True refl m[symmetric] refl d[symmetric] 3 this]
      show ?thesis using True m d 3 step by (simp add: Thread_loop.simps[of bs bi ops i])
    qed
  qed
qed

lemma kinds_partition:
  "length (filter is_member_call calls) + length (filter is_insert_call calls)
     + length (filter is_delete_call calls) = length calls"
proof (induction calls)
  case Nil
  then show ?case by simp
next
  case (Cons c calls)
  then show ?case by (cases c) simp_all
qed

lemma Thread_work_counts:
  "tally (fst (Thread_work bs bi total_ops thread_count my_rank t))
         (snd (Thread_work bs bi total_ops thread_count my_rank t))
   \<and> int (length (fst (Thread_work bs bi total_ops thread_count my_rank t)))
       = max 0 (c_div total_ops thread_count)"
proof -
  have "tally [] \<lparr>my_member_count = 0, my_insert_count = 0, my_delete_count = 0\<rparr>"
    by (simp add: tally_def)
  from Thread_loop_counts[OF this] show ?thesis by (simp add: Thread_work_def)
qed

lemma Thread_work_sum:
  "my_member_count (snd (Thread_work bs bi total_ops thread_count my_rank t))
   + my_insert_count (snd (Thread_work bs bi total_ops thread_count my_rank t))
   + my_delete_count (snd (Thread_work bs bi total_ops thread_count my_rank t))
   = max 0 (c_div total_ops thread_count)"
proof -
  let ?w = "Thread_work bs bi total_ops thread_count my_rank t"
  have "my_member_count (snd ?w) + my_insert_count (snd ?w) + my_delete_count (snd ?w)
          = int (length (filter is_member_call (fst ?w)) + length (filter is_insert_call (fst ?w))
                 + length (filter is_delete_call (fst ?w)))"
    using Thread_work_counts[of bs bi total_ops thread_count my_rank t] by (simp add: tally_def)
  also have "\<dots> = int (length (fst ?w))" by (simp only: kinds_partition)
  finally show ?thesis
    using Thread_work_counts[of bs bi total_ops thread_count my_rank t] by simp
qed

lemma foldl_fold_in:
  "member_count (foldl fold_in g cs) = member_count g + sum_list (map my_member_count cs)"
  "insert_count (foldl fold_in g cs) = insert_count g + sum_list (map my_insert_count cs)"
  "delete_count (foldl fold_in g cs) = delete_count g + sum_list (map my_delete_count cs)"
  by (induction cs arbitrary: g) (simp_all add: fold_in_def)

lemma sum_list_perm:
  fixes h :: "nat \<Rightarrow> int"
  assumes "mset order = mset [0..<n]"
  shows "sum_list (map h order) = (\<Sum>r = 0..<n. h r)"
proof -
  have "sum_list (map h order) = sum_mset (image_mset h (mset order))"
    by (metis mset_map sum_mset_sum_list)
  also have "\<dots> = sum_mset (image_mset h (mset [0..<n]))" using assms by simp
  also have "\<dots> = sum_list (map h [0..<n])" by (metis mset_map sum_mset_sum_list)
  also have "\<dots> = (\<Sum>r = 0..<n. h r)" by (simp add: interv_sum_list_conv_sum_set_nat)
  finally show ?thesis .
qed

lemma c_div_nonneg:
  assumes "0 \<le> a" "1 \<le> b"
  shows "c_div a b = a div b" "0 \<le> c_div a b"
  using assms by (simp_all add: c_div_def pos_imp_zdiv_nonneg_iff)

text \<open>
  C6, as the code has it. For \<open>thread_count \<ge> 1\<close> and any \<open>total_ops\<close>, with
  \<open>/\<close> the truncating division of C: each worker makes exactly
  \<open>max(0, total_ops / thread_count)\<close> calls on the list, each call adds one to exactly
  the local counter of its kind, and once every worker has added its locals to the
  globals under \<open>count_mutex\<close>, in whatever order, each global is the sum of the
  workers' locals and \<open>member_count + insert_count + delete_count\<close> is
  \<open>thread_count * max(0, total_ops / thread_count)\<close>. For \<open>total_ops \<ge> 0\<close> that is
  \<open>thread_count * (total_ops / thread_count)\<close>, the remainder dropped.
\<close>

theorem operation_counts:
  assumes "1 \<le> thread_count" and "mset order = mset [0..<nat thread_count]"
  shows
    "int (length (fst (Thread_work below_search below_insert total_ops thread_count my_rank t)))
       = max 0 (c_div total_ops thread_count)
     \<and> my_member_count (snd (Thread_work below_search below_insert total_ops thread_count my_rank t))
       = int (length (filter is_member_call
               (fst (Thread_work below_search below_insert total_ops thread_count my_rank t))))
     \<and> my_insert_count (snd (Thread_work below_search below_insert total_ops thread_count my_rank t))
       = int (length (filter is_insert_call
               (fst (Thread_work below_search below_insert total_ops thread_count my_rank t))))
     \<and> my_delete_count (snd (Thread_work below_search below_insert total_ops thread_count my_rank t))
       = int (length (filter is_delete_call
               (fst (Thread_work below_search below_insert total_ops thread_count my_rank t))))
     \<and> member_count (joined_totals below_search below_insert total_ops thread_count now order)
       = (\<Sum>r = 0..<nat thread_count.
            my_member_count
              (snd (Thread_work below_search below_insert total_ops thread_count r (now r))))
     \<and> insert_count (joined_totals below_search below_insert total_ops thread_count now order)
       = (\<Sum>r = 0..<nat thread_count.
            my_insert_count
              (snd (Thread_work below_search below_insert total_ops thread_count r (now r))))
     \<and> delete_count (joined_totals below_search below_insert total_ops thread_count now order)
       = (\<Sum>r = 0..<nat thread_count.
            my_delete_count
              (snd (Thread_work below_search below_insert total_ops thread_count r (now r))))
     \<and> member_count (joined_totals below_search below_insert total_ops thread_count now order)
       + insert_count (joined_totals below_search below_insert total_ops thread_count now order)
       + delete_count (joined_totals below_search below_insert total_ops thread_count now order)
       = thread_count * max 0 (c_div total_ops thread_count)
     \<and> (0 \<le> total_ops \<longrightarrow>
          max 0 (c_div total_ops thread_count) = total_ops div thread_count)"
proof -
  let ?w = "\<lambda>r. Thread_work below_search below_insert total_ops thread_count r (now r)"
  let ?g = "joined_totals below_search below_insert total_ops thread_count now order"
  let ?k = "max 0 (c_div total_ops thread_count)"
  note one = Thread_work_counts[of below_search below_insert total_ops thread_count my_rank t]
  have m: "member_count ?g = (\<Sum>r = 0..<nat thread_count. my_member_count (snd (?w r)))"
    using sum_list_perm[OF assms(2), of "\<lambda>r. my_member_count (snd (?w r))"]
    by (simp add: joined_totals_def foldl_fold_in(1) comp_def)
  have i: "insert_count ?g = (\<Sum>r = 0..<nat thread_count. my_insert_count (snd (?w r)))"
    using sum_list_perm[OF assms(2), of "\<lambda>r. my_insert_count (snd (?w r))"]
    by (simp add: joined_totals_def foldl_fold_in(2) comp_def)
  have d: "delete_count ?g = (\<Sum>r = 0..<nat thread_count. my_delete_count (snd (?w r)))"
    using sum_list_perm[OF assms(2), of "\<lambda>r. my_delete_count (snd (?w r))"]
    by (simp add: joined_totals_def foldl_fold_in(3) comp_def)
  have "member_count ?g + insert_count ?g + delete_count ?g
          = (\<Sum>r = 0..<nat thread_count.
               my_member_count (snd (?w r)) + my_insert_count (snd (?w r))
               + my_delete_count (snd (?w r)))"
    by (simp only: m i d sum.distrib)
  also have "\<dots> = (\<Sum>r = 0..<nat thread_count. ?k)"
    by (simp only: Thread_work_sum)
  also have "\<dots> = thread_count * ?k" using assms(1) by simp
  finally have total: "member_count ?g + insert_count ?g + delete_count ?g = thread_count * ?k" .
  have nonneg: "0 \<le> total_ops \<longrightarrow> ?k = total_ops div thread_count"
    using c_div_nonneg[OF _ assms(1), of total_ops] by simp
  show ?thesis
    using one m i d total nonneg unfolding tally_def by blast
qed

theorem operation_counts_witness:
  "(1::int) \<le> 2 \<and> mset [1, 0] = mset [0..<nat 2]
   \<and> Thread_work (\<lambda>r. r < 16384) (\<lambda>r. r < 24576) 7 2 0 0
       = ([Do_member 21468, Do_member 22117, Do_member 16927],
          \<lparr>my_member_count = 3, my_insert_count = 0, my_delete_count = 0\<rparr>)
   \<and> int (length (fst (Thread_work (\<lambda>r. r < 16384) (\<lambda>r. r < 24576) 7 2 0 0))) = 3
   \<and> member_count (joined_totals (\<lambda>r. r < 16384) (\<lambda>r. r < 24576) 7 2 (\<lambda>r. 0) [1, 0])
     + insert_count (joined_totals (\<lambda>r. r < 16384) (\<lambda>r. r < 24576) 7 2 (\<lambda>r. 0) [1, 0])
     + delete_count (joined_totals (\<lambda>r. r < 16384) (\<lambda>r. r < 24576) 7 2 (\<lambda>r. 0) [1, 0])
     = 2 * (7 div 2)"
proof -
  have h1: "(1::int) \<le> 2" by simp
  have h2: "mset [1, 0] = mset [0..<nat 2]" by (simp add: upt_rec)
  have e: "Thread_work (\<lambda>r. r < 16384) (\<lambda>r. r < 24576) 7 2 0 0
       = ([Do_member 21468, Do_member 22117, Do_member 16927],
          \<lparr>my_member_count = 3, my_insert_count = 0, my_delete_count = 0\<rparr>)"
    by code_simp
  have c: "max 0 (c_div 7 2) = 3" by (simp add: c_div_def)
  note oc = operation_counts [OF h1 h2, of "\<lambda>r. r < 16384" "\<lambda>r. r < 24576" 7 0 0 "\<lambda>r. 0"]
  show ?thesis using h1 h2 e oc c by simp
qed

text \<open>
  For a negative \<open>total_ops\<close> the loop \<open>for (i = 0; i < ops_per_thread; i++)\<close> does
  not run: with \<open>total_ops = -4\<close> and two threads each worker makes no call and the
  globals add up to 0, while \<open>thread_count * (total_ops / thread_count)\<close> is \<open>-4\<close>.
\<close>

theorem operation_counts_counterexample:
  "length (fst (Thread_work (\<lambda>r. r < 16384) (\<lambda>r. r < 24576) (- 4) 2 0 0)) = 0
   \<and> c_div (- 4) 2 = - 2
   \<and> member_count (joined_totals (\<lambda>r. r < 16384) (\<lambda>r. r < 24576) (- 4) 2 (\<lambda>r. 0) [0, 1])
     + insert_count (joined_totals (\<lambda>r. r < 16384) (\<lambda>r. r < 24576) (- 4) 2 (\<lambda>r. 0) [0, 1])
     + delete_count (joined_totals (\<lambda>r. r < 16384) (\<lambda>r. r < 24576) (- 4) 2 (\<lambda>r. 0) [0, 1])
     = 0
   \<and> 2 * c_div (- 4) 2 = - 4"
proof -
  have c: "c_div (- 4) 2 = - 2" by (simp add: c_div_def)
  have w: "Thread_work (\<lambda>r. r < 16384) (\<lambda>r. r < 24576) (- 4) 2 my_rank 0
             = ([], \<lparr>my_member_count = 0, my_insert_count = 0, my_delete_count = 0\<rparr>)"
    for my_rank
    by (simp add: Thread_work_def c Thread_loop.simps [of _ _ "- 2" 0])
  show ?thesis by (simp add: c w joined_totals_def fold_in_def)
qed

text \<open>
  C10. For every seed \<open>my_rand\<close> returns a value below 32768, so the key drawn as
  \<open>my_rand(&seed) % MAX_KEY\<close> is that same value, between 0 and 32767, although
  \<open>MAX_KEY\<close> is 100000000; every call a worker makes on the list has its key in that
  range.
\<close>

theorem key_space_bound:
  "unat (fst (my_rand seed)) < 32768
   \<and> fst (draw_key seed) = int (unat (fst (my_rand seed)))
   \<and> 0 \<le> fst (draw_key seed) \<and> fst (draw_key seed) < 32768
   \<and> 32768 < MAX_KEY
   \<and> (\<forall>c \<in> set (fst (Thread_work below_search below_insert total_ops thread_count my_rank t)).
         0 \<le> key_of c \<and> key_of c < 32768)"
proof -
  have a: "unat (fst (my_rand seed)) < 32768"
    by (simp add: my_rand_def Let_def unat_mod)
  have b: "fst (draw_key seed) = int (unat (fst (my_rand seed)))"
    by (simp only: draw_key_eq uint_nat)
  have c: "\<forall>c \<in> set (fst (Thread_work below_search below_insert total_ops thread_count my_rank t)).
         0 \<le> key_of c \<and> key_of c < 32768"
    unfolding Thread_work_def by (rule Thread_loop_keys) simp
  have d: "32768 < MAX_KEY" by (simp add: MAX_KEY_def)
  show ?thesis using a b c d draw_key_range[of seed] by blast
qed

theorem key_space_bound_witness:
  "fst (Thread_work (\<lambda>r. r < 16384) (\<lambda>r. r < 24576) 7 2 0 0)
     = [Do_member 21468, Do_member 22117, Do_member 16927]
   \<and> my_rand 1 = (16838, 1103527590)
   \<and> draw_key 1 = (16838, 1103527590)
   \<and> 0 \<le> key_of (Do_member 21468) \<and> key_of (Do_member 21468) < 32768"
proof -
  have e: "fst (Thread_work (\<lambda>r. r < 16384) (\<lambda>r. r < 24576) 7 2 0 0)
     = [Do_member 21468, Do_member 22117, Do_member 16927]"
    by code_simp
  have m: "my_rand 1 = (16838, 1103527590)" by (simp add: my_rand_def)
  have d: "draw_key 1 = (16838, 1103527590)" by (simp add: draw_key_def m MAX_KEY_def)
  note kb = key_space_bound [of 1 "\<lambda>r. r < 16384" "\<lambda>r. r < 24576" 7 2 0 0]
  have "0 \<le> key_of (Do_member 21468) \<and> key_of (Do_member 21468) < 32768"
    using kb e by simp
  then show ?thesis using e m d by simp
qed

end
